theory Spec2Isabelle
  imports Main "HOL-Library.Char_ord" "HOL-Library.List_Lexorder" "HOL-Library.Product_Lexorder"
    "HOL-Library.Multiset"
begin

section \<open>Python string primitives used by \<open>parse_refs.py\<close>\<close>

text \<open>
  A Python \<open>str\<close> is modelled as a \<open>string\<close> whose characters are the code points
  0..255. On that range \<open>str.isspace\<close> (which is also what \<open>str.strip()\<close>,
  \<open>str.split()\<close> and the regular expression class \<open>\s\<close> use) holds for
  TAB, LF, VT, FF, CR, the separators 0x1C..0x1F, the space, NEL (0x85) and the
  no-break space (0xA0); the class \<open>\d\<close> holds for the ten ASCII digits only.
\<close>

definition isspace :: "char \<Rightarrow> bool" where
  "isspace c = (c \<in> set [CHR 0x09, CHR 0x0A, CHR 0x0B, CHR 0x0C, CHR 0x0D,
                           CHR 0x1C, CHR 0x1D, CHR 0x1E, CHR 0x1F, CHR 0x20,
                           CHR 0x85, CHR 0xA0])"

definition isdigit :: "char \<Rightarrow> bool" where
  "isdigit c = (c \<in> set ''0123456789'')"

datatype error = ValueError | IndexError | UnicodeEncodeError

text \<open>\<open>s.strip()\<close>, \<open>s.rstrip(chars)\<close>, \<open>s.endswith(suffix)\<close>, \<open>s.split()\<close>.\<close>

definition py_lstrip :: "string \<Rightarrow> string" where
  "py_lstrip s = dropWhile isspace s"

definition py_rstrip :: "string \<Rightarrow> string" where
  "py_rstrip s = rev (dropWhile isspace (rev s))"

definition py_strip :: "string \<Rightarrow> string" where
  "py_strip s = py_rstrip (py_lstrip s)"

definition rstrip_chars :: "string \<Rightarrow> string \<Rightarrow> string" where
  "rstrip_chars chars s = rev (dropWhile (\<lambda>c. c \<in> set chars) (rev s))"

definition endswith :: "string \<Rightarrow> string \<Rightarrow> bool" where
  "endswith s suf = (length suf \<le> length s \<and> drop (length s - length suf) s = suf)"

fun split_acc :: "string \<Rightarrow> string \<Rightarrow> string list" where
  "split_acc acc [] = (if acc = [] then [] else [rev acc])"
| "split_acc acc (c # cs) =
     (if isspace c then (if acc = [] then split_acc [] cs else rev acc # split_acc [] cs)
      else split_acc (c # acc) cs)"

definition py_split :: "string \<Rightarrow> string list" where
  "py_split s = split_acc [] s"

text \<open>
  \<open>xs[i]\<close> on a list: the indices \<open>0 .. len - 1\<close> read from the front, the indices
  \<open>-len .. -1\<close> from the back, every other index raises IndexError.
\<close>

definition py_index :: "'a list \<Rightarrow> int \<Rightarrow> error + 'a" where
  "py_index xs i =
     (if 0 \<le> i \<and> i < int (length xs) then Inr (xs ! nat i)
      else if i < 0 \<and> - int (length xs) \<le> i then Inr (xs ! nat (int (length xs) + i))
      else Inl IndexError)"

text \<open>
  \<open>int(s)\<close> on a non-empty string of ASCII digits is its decimal value. Every other
  argument is taken to raise ValueError (Python accepts a few more spellings, none of
  which is a string of digits).
\<close>

definition digit_val :: "char \<Rightarrow> int" where
  "digit_val c = int (of_char c) - 48"

definition py_int :: "string \<Rightarrow> error + int" where
  "py_int s = (if s \<noteq> [] \<and> list_all isdigit s
               then Inr (foldl (\<lambda>a c. 10 * a + digit_val c) 0 s)
               else Inl ValueError)"

text \<open>
  \<open>s.lower()\<close> on code points 0..255: the letters A..Z and the accented capitals
  0xC0..0xDE (without the multiplication sign 0xD7) move up by 32.
\<close>

definition lower_char :: "char \<Rightarrow> char" where
  "lower_char c =
     (let n = (of_char c :: nat)
      in if (65 \<le> n \<and> n \<le> 90) \<or> (192 \<le> n \<and> n \<le> 222 \<and> n \<noteq> 215)
         then char_of (n + 32) else c)"

definition py_lower :: "string \<Rightarrow> string" where
  "py_lower s = map lower_char s"

section \<open>The regular expressions\<close>

text \<open>
  A pattern is modelled by its matcher at the start of a string: the captured group (if
  any) and the text left after the match, or \<open>None\<close>. In all four patterns of the
  program a greedy \<open>\s+\<close> is followed by a character that is not white space (a digit,
  \<open>I\<close>, \<open>a\<close>) or ends the pattern, so the only run that can lead to a match is the
  maximal one and backtracking never finds another match.
\<close>

definition match_lit :: "string \<Rightarrow> string \<Rightarrow> string option" where
  "match_lit l s = (if take (length l) s = l then Some (drop (length l) s) else None)"

definition match_ws1 :: "string \<Rightarrow> string option" where
  "match_ws1 s = (if takeWhile isspace s = [] then None else Some (dropWhile isspace s))"

definition match_digits4 :: "string \<Rightarrow> (string \<times> string) option" where
  "match_digits4 s =
     (if length (take 4 s) = 4 \<and> list_all isdigit (take 4 s)
      then Some (take 4 s, drop 4 s) else None)"

text \<open>\<open>\.\s+(\d{4})\.\s+\<close>\<close>

definition year_pattern :: "string \<Rightarrow> (string \<times> string) option" where
  "year_pattern s =
     (case match_lit ''.'' s of None \<Rightarrow> None | Some r1 \<Rightarrow>
      case match_ws1 r1 of None \<Rightarrow> None | Some r2 \<Rightarrow>
      case match_digits4 r2 of None \<Rightarrow> None | Some (d, r3) \<Rightarrow>
      case match_lit ''.'' r3 of None \<Rightarrow> None | Some r4 \<Rightarrow>
      case match_ws1 r4 of None \<Rightarrow> None | Some r5 \<Rightarrow> Some (d, r5))"

text \<open>\<open>\.\s+In\s+\<close>\<close>

definition in_pattern :: "string \<Rightarrow> (unit \<times> string) option" where
  "in_pattern s =
     (case match_lit ''.'' s of None \<Rightarrow> None | Some r1 \<Rightarrow>
      case match_ws1 r1 of None \<Rightarrow> None | Some r2 \<Rightarrow>
      case match_lit ''In'' r2 of None \<Rightarrow> None | Some r3 \<Rightarrow>
      case match_ws1 r3 of None \<Rightarrow> None | Some r4 \<Rightarrow> Some ((), r4))"

text \<open>\<open>\.\s+\<close>\<close>

definition sentence_pattern :: "string \<Rightarrow> (unit \<times> string) option" where
  "sentence_pattern s =
     (case match_lit ''.'' s of None \<Rightarrow> None | Some r1 \<Rightarrow>
      case match_ws1 r1 of None \<Rightarrow> None | Some r2 \<Rightarrow> Some ((), r2))"

text \<open>\<open>,|\s+and\s+\<close>: the alternatives are tried in order at each position.\<close>

definition and_pattern :: "string \<Rightarrow> (unit \<times> string) option" where
  "and_pattern s =
     (case match_ws1 s of None \<Rightarrow> None | Some r1 \<Rightarrow>
      case match_lit ''and'' r1 of None \<Rightarrow> None | Some r2 \<Rightarrow>
      case match_ws1 r2 of None \<Rightarrow> None | Some r3 \<Rightarrow> Some ((), r3))"

definition author_sep_pattern :: "string \<Rightarrow> (unit \<times> string) option" where
  "author_sep_pattern s =
     (case match_lit '','' s of Some r \<Rightarrow> Some ((), r) | None \<Rightarrow> and_pattern s)"

text \<open>
  \<open>re.search(p, s)\<close>: the leftmost position at which the pattern matches, as the
  triple (\<open>start()\<close>, \<open>end()\<close>, \<open>group(1)\<close>). The first argument counts the characters
  already passed.
\<close>

fun re_search :: "(string \<Rightarrow> ('g \<times> string) option) \<Rightarrow> nat \<Rightarrow> string \<Rightarrow> (nat \<times> nat \<times> 'g) option" where
  "re_search p i [] =
     (case p [] of Some (g, rest) \<Rightarrow> Some (i, i, g) | None \<Rightarrow> None)"
| "re_search p i (c # cs) =
     (case p (c # cs) of
        Some (g, rest) \<Rightarrow> Some (i, i + (length (c # cs) - length rest), g)
      | None \<Rightarrow> re_search p (Suc i) cs)"

text \<open>\<open>re.split(p, s, maxsplit=1)\<close> for a pattern without groups.\<close>

definition re_split_once :: "(string \<Rightarrow> (unit \<times> string) option) \<Rightarrow> string \<Rightarrow> string list" where
  "re_split_once p s =
     (case re_search p 0 s of
        None \<Rightarrow> [s]
      | Some (st, en, g) \<Rightarrow> [take st s, drop en s])"


text \<open>
  \<open>re.split(r',|\s+and\s+', s)\<close>: the text before each match, then the text after the
  last one. A match of this pattern is never empty, which is what makes the recursion
  end.
\<close>

lemma match_lit_length:
  "match_lit l s = Some r \<Longrightarrow> length r + length l = length s"
proof -
  assume "match_lit l s = Some r"
  then have t: "take (length l) s = l" and r: "r = drop (length l) s"
    by (auto simp: match_lit_def split: if_splits)
  have "length (take (length l) s) = min (length l) (length s)" by simp
  with t have "length l \<le> length s" by simp
  with r show ?thesis by simp
qed

lemma match_ws1_length:
  "match_ws1 s = Some r \<Longrightarrow> length r < length s"
proof -
  assume a: "match_ws1 s = Some r"
  then have r: "r = dropWhile isspace s" and ne: "takeWhile isspace s \<noteq> []"
    by (auto simp: match_ws1_def split: if_splits)
  have "length (takeWhile isspace s) + length (dropWhile isspace s) = length s"
    by (metis length_append takeWhile_dropWhile_id)
  with ne r show ?thesis by (cases "takeWhile isspace s") auto
qed

lemma author_sep_pattern_length:
  "author_sep_pattern s = Some (g, r) \<Longrightarrow> length r < length s"
  by (auto simp: author_sep_pattern_def and_pattern_def split: option.splits
           dest!: match_lit_length match_ws1_length)

lemma re_search_end:
  "re_search p i s = Some (st, en, g) \<Longrightarrow>
     \<exists>k rest. st = i + k \<and> k \<le> length s \<and> p (drop k s) = Some (g, rest) \<and>
              en = st + (length (drop k s) - length rest)"
proof (induction s arbitrary: i)
  case Nil
  then show ?case by (auto split: option.splits)
next
  case (Cons c cs)
  show ?case
  proof (cases "p (c # cs)")
    case None
    with Cons.prems have "re_search p (Suc i) cs = Some (st, en, g)" by simp
    from Cons.IH[OF this] obtain k rest where
      "st = Suc i + k" "k \<le> length cs" "p (drop k cs) = Some (g, rest)"
      "en = st + (length (drop k cs) - length rest)" by blast
    then show ?thesis by (intro exI[of _ "Suc k"] exI[of _ rest]) simp
  next
    case (Some a)
    with Cons.prems show ?thesis
      by (intro exI[of _ 0]) (auto split: prod.splits)
  qed
qed

lemma author_sep_search_shrinks:
  assumes "re_search author_sep_pattern 0 s = Some (st, en, g)"
  shows "length (drop en s) < length s"
proof -
  from re_search_end[OF assms] obtain k rest where
    k: "st = k" "k \<le> length s" "author_sep_pattern (drop k s) = Some (g, rest)"
       "en = st + (length (drop k s) - length rest)" by auto
  from author_sep_pattern_length[OF k(3)] have "length rest < length (drop k s)" .
  with k show ?thesis by auto
qed

function re_split_authors :: "string \<Rightarrow> string list" where
  "re_split_authors s =
     (case re_search author_sep_pattern 0 s of
        None \<Rightarrow> [s]
      | Some (st, en, g) \<Rightarrow> take st s # re_split_authors (drop en s))"
  by pat_completeness auto
termination
  by (relation "measure length") (auto dest: author_sep_search_shrinks)

declare re_split_authors.simps [simp del]

section \<open>\<open>parse_reference\<close>\<close>

type_synonym parsed_ref = "string \<times> int \<times> string \<times> string \<times> string"

text \<open>The line printed when no year is found (line 24).\<close>

definition warning_line :: "string \<Rightarrow> string" where
  "warning_line ref_text = ''Warning: Could not find year in: '' @ take 100 ref_text @ ''...''"

text \<open>Lines 36 to 45: the last name of the first author.\<close>

definition first_author_last :: "string \<Rightarrow> error + string" where
  "first_author_last authors_str =
     (case py_index (re_split_authors authors_str) 0 of
        Inl e \<Rightarrow> Inl e
      | Inr seg \<Rightarrow>
          let first_author_parts = py_strip seg;
              name_parts = py_split first_author_parts
          in if length name_parts \<ge> 2 then
               (case py_index name_parts (- 1) of
                  Inl e \<Rightarrow> Inl e
                | Inr w \<Rightarrow> Inr (rstrip_chars ''.,'' w))
             else if name_parts \<noteq> [] then
               (case py_index name_parts 0 of
                  Inl e \<Rightarrow> Inl e
                | Inr w \<Rightarrow> Inr (rstrip_chars ''.,'' w))
             else Inr ''Unknown'')"

text \<open>Lines 54 to 69: title and venue from the text after the year.\<close>

definition title_venue :: "string \<Rightarrow> error + (string \<times> string)" where
  "title_venue after_year =
     (case re_search in_pattern 0 after_year of
        Some (in_start, in_end, g) \<Rightarrow>
          Inr (py_strip (take in_start after_year),
               py_strip (drop (in_start + 1) after_year))
      | None \<Rightarrow>
          let sentences = re_split_once sentence_pattern after_year
          in if length sentences \<ge> 2 then
               (case py_index sentences 0 of
                  Inl e \<Rightarrow> Inl e
                | Inr s0 \<Rightarrow>
                    (case py_index sentences 1 of
                       Inl e \<Rightarrow> Inl e
                     | Inr s1 \<Rightarrow> Inr (py_strip s0, py_strip s1)))
             else Inr (py_strip after_year, []))"

text \<open>Lines 72 and 73: the clean-up of the title.\<close>

definition clean_title :: "string \<Rightarrow> string" where
  "clean_title title =
     (if title \<noteq> [] \<and> \<not> endswith title ''.'' then rstrip_chars ''.'' title else title)"

text \<open>
  \<open>print(line)\<close> writes to \<open>sys.stdout\<close>, which encodes the line with its own encoding
  and the error handler \<open>strict\<close>: a character that the encoding does not hold raises
  UnicodeEncodeError before anything is written. The encoding is a parameter, given as
  the set of characters it holds.
\<close>

definition py_print :: "(char \<Rightarrow> bool) \<Rightarrow> string \<Rightarrow> error + string list" where
  "py_print encodes line = (if list_all encodes line then Inr [line] else Inl UnicodeEncodeError)"


definition utf8_stdout :: "char \<Rightarrow> bool" where
  "utf8_stdout c = True"

text \<open>
  The whole function, on a stdout with the given encoding. The first component is what
  the call prints, the second is what it returns (\<open>Inr None\<close> for \<open>return None\<close>) or
  the exception it raises.
\<close>

definition parse_reference_on :: "(char \<Rightarrow> bool) \<Rightarrow> string \<Rightarrow> string list \<times> (error + parsed_ref option)" where
  "parse_reference_on encodes raw =
     (let ref_text = py_strip raw
      in if ref_text = [] then ([], Inr None)
         else
           (case re_search year_pattern 0 ref_text of
              None \<Rightarrow>
                (case py_print encodes (warning_line ref_text) of
                   Inl e \<Rightarrow> ([], Inl e)
                 | Inr printed \<Rightarrow> (printed, Inr None))
            | Some (year_pos, year_end, grp) \<Rightarrow>
                ([],
                 case py_int grp of
                   Inl e \<Rightarrow> Inl e
                 | Inr year \<Rightarrow>
                     let authors_str = py_strip (take year_pos ref_text)
                     in (case first_author_last authors_str of
                           Inl e \<Rightarrow> Inl e
                         | Inr last_name \<Rightarrow>
                             let after_year = py_strip (drop year_end ref_text)
                             in (case title_venue after_year of
                                   Inl e \<Rightarrow> Inl e
                                 | Inr (title, venue) \<Rightarrow>
                                     Inr (Some (last_name, year, authors_str,
                                                clean_title title, venue)))))))"

text \<open>
  \<open>main\<close> reads its blocks from a file decoded as UTF-8, and the stdout of a run is
  UTF-8 unless the environment says otherwise; every character of a block can then be
  printed. \<open>parse_reference\<close> is the function on such a stdout.
\<close>

definition parse_reference :: "string \<Rightarrow> string list \<times> (error + parsed_ref option)" where
  "parse_reference raw = parse_reference_on utf8_stdout raw"

section \<open>The loop and the sort of \<open>main\<close>\<close>

text \<open>
  Lines 86 to 90, with the list \<open>parsed_refs\<close> and the printed lines passed along. A
  5-tuple is truthy, so \<open>if result\<close> only tests for \<open>None\<close>. An exception ends the run.
\<close>

fun parse_loop :: "string list \<Rightarrow> parsed_ref list \<Rightarrow> string list \<Rightarrow> string list \<times> (error + parsed_ref list)" where
  "parse_loop [] parsed_refs out = (out, Inr parsed_refs)"
| "parse_loop (raw_ref # raw_refs) parsed_refs out =
     (case parse_reference raw_ref of
        (printed, Inl e) \<Rightarrow> (out @ printed, Inl e)
      | (printed, Inr None) \<Rightarrow> parse_loop raw_refs parsed_refs (out @ printed)
      | (printed, Inr (Some result)) \<Rightarrow>
          parse_loop raw_refs (parsed_refs @ [result]) (out @ printed))"

text \<open>
  Line 93: \<open>parsed_refs.sort(key=lambda x: (x[0].lower(), x[1]))\<close>. Python compares the
  key tuples lexicographically, strings by code point, and its sort is stable; the
  insertion sort \<open>sort_key\<close> is the stable sort on the same order.
\<close>

definition ref_key :: "parsed_ref \<Rightarrow> string \<times> int" where
  "ref_key x = (py_lower (fst x), fst (snd x))"

definition sort_refs :: "parsed_ref list \<Rightarrow> parsed_ref list" where
  "sort_refs parsed_refs = sort_key ref_key parsed_refs"

section \<open>The specification's notions\<close>





text \<open>
  The separators of the author list: a comma, or the word \<open>and\<close> with white space on
  both sides. The first author's segment is the text before the first place where a
  separator starts, the whole text when there is none.
\<close>

definition is_separator :: "string \<Rightarrow> bool" where
  "is_separator sep =
     (sep = '','' \<or>
      (\<exists>ws1 ws2. sep = ws1 @ ''and'' @ ws2 \<and> ws1 \<noteq> [] \<and> list_all isspace ws1 \<and>
                  ws2 \<noteq> [] \<and> list_all isspace ws2))"

definition separator_at :: "string \<Rightarrow> nat \<Rightarrow> bool" where
  "separator_at a k = (\<exists>sep rest. drop k a = sep @ rest \<and> is_separator sep)"

definition first_author_segment :: "string \<Rightarrow> string" where
  "first_author_segment a =
     (if \<exists>k. separator_at a k then take (LEAST k. separator_at a k) a else a)"

text \<open>
  The last token of a text is its last maximal run of characters that are not white
  space. A token without its trailing periods and commas: a character is dropped when
  it is a period or a comma and nothing remains of what follows it.
\<close>

definition last_token :: "string \<Rightarrow> string" where
  "last_token seg = rev (takeWhile (\<lambda>c. \<not> isspace c) (dropWhile isspace (rev seg)))"

fun without_trailing_punct :: "string \<Rightarrow> string" where
  "without_trailing_punct [] = []"
| "without_trailing_punct (c # cs) =
     (if (c = CHR ''.'' \<or> c = CHR '','') \<and> without_trailing_punct cs = [] then []
      else c # without_trailing_punct cs)"

definition last_name_of :: "string \<Rightarrow> string" where
  "last_name_of seg =
     (if list_all isspace seg then ''Unknown'' else without_trailing_punct (last_token seg))"

text \<open>
  An occurrence of the letters \<open>and\<close> at position \<open>k\<close> lies inside a longer word when
  the character before it or the character after it is not white space.
\<close>

definition and_inside_word_at :: "string \<Rightarrow> nat \<Rightarrow> bool" where
  "and_inside_word_at a k =
     ((0 < k \<and> \<not> isspace (a ! (k - 1))) \<or> (k + 3 < length a \<and> \<not> isspace (a ! (k + 3))))"

definition and_only_inside_words :: "string \<Rightarrow> bool" where
  "and_only_inside_words a =
     list_all (\<lambda>k. take 3 (drop k a) = ''and'' \<longrightarrow> and_inside_word_at a k) [0..<length a]"



section \<open>Auxiliary facts\<close>


lemma re_search_first:
  "re_search p i s = Some (st, en, g) \<Longrightarrow> j + i < st \<Longrightarrow> p (drop j s) = None"
proof (induction s arbitrary: i j)
  case Nil
  then show ?case by (auto split: option.splits)
next
  case (Cons c cs)
  show ?case
  proof (cases "p (c # cs)")
    case None
    with Cons.prems have s: "re_search p (Suc i) cs = Some (st, en, g)" by simp
    show ?thesis
    proof (cases j)
      case 0
      with None show ?thesis by simp
    next
      case (Suc j')
      with Cons.prems have "j' + Suc i < st" by simp
      from Cons.IH[OF s this] Suc show ?thesis by simp
    qed
  next
    case (Some a)
    with Cons.prems show ?thesis by (auto split: prod.splits)
  qed
qed

lemma re_search_None_iff:
  "re_search p i s = None \<longleftrightarrow> (\<forall>k\<le>length s. p (drop k s) = None)"
proof (induction s arbitrary: i)
  case Nil
  then show ?case by (auto split: option.splits)
next
  case (Cons c cs)
  show ?case
  proof (cases "p (c # cs)")
    case None
    have "(\<forall>k\<le>length (c # cs). p (drop k (c # cs)) = None) \<longleftrightarrow>
          (\<forall>k\<le>length cs. p (drop k cs) = None)"
    proof
      assume a: "\<forall>k\<le>length (c # cs). p (drop k (c # cs)) = None"
      show "\<forall>k\<le>length cs. p (drop k cs) = None"
      proof (intro allI impI)
        fix k assume "k \<le> length cs"
        with a have "p (drop (Suc k) (c # cs)) = None" by (metis Suc_le_mono length_Cons)
        then show "p (drop k cs) = None" by simp
      qed
    next
      assume a: "\<forall>k\<le>length cs. p (drop k cs) = None"
      show "\<forall>k\<le>length (c # cs). p (drop k (c # cs)) = None"
      proof (intro allI impI)
        fix k assume k: "k \<le> length (c # cs)"
        show "p (drop k (c # cs)) = None"
        proof (cases k)
          case 0 with None show ?thesis by simp
        next
          case (Suc k') with k a show ?thesis by simp
        qed
      qed
    qed
    with None Cons.IH[of "Suc i"] show ?thesis by simp
  next
    case (Some a)
    then have "re_search p i (c # cs) \<noteq> None" by (auto split: prod.splits)
    moreover from Some have "\<not> (\<forall>k\<le>length (c # cs). p (drop k (c # cs)) = None)"
      by (metis drop0 le0 option.distinct(1))
    ultimately show ?thesis by blast
  qed
qed

lemma re_search_exists:
  "k \<le> length s \<Longrightarrow> p (drop k s) \<noteq> None \<Longrightarrow> re_search p i s \<noteq> None"
  using re_search_None_iff[of p i s] by auto

lemma re_search_SomeD:
  "re_search p i s \<noteq> None \<Longrightarrow> \<exists>k\<le>length s. p (drop k s) \<noteq> None"
  using re_search_None_iff[of p i s] by auto

lemma match_ws1_Some_iff:
  "match_ws1 s = Some r \<longleftrightarrow> (s \<noteq> [] \<and> isspace (hd s) \<and> r = dropWhile isspace s)"
  by (cases s) (auto simp: match_ws1_def)

lemma match_lit_dot:
  "match_lit ''.'' s = Some r \<longleftrightarrow> s = CHR ''.'' # r"
  by (cases s) (auto simp: match_lit_def)

lemma takeWhile_space_run:
  "list_all isspace ws \<Longrightarrow> takeWhile isspace (ws @ r) = ws @ takeWhile isspace r"
  by (simp add: list_all_iff takeWhile_append2)

lemma dropWhile_space_run:
  "list_all isspace ws \<Longrightarrow> dropWhile isspace (ws @ r) = dropWhile isspace r"
  by (simp add: list_all_iff dropWhile_append2)

lemma match_ws1_run:
  "ws \<noteq> [] \<Longrightarrow> list_all isspace ws \<Longrightarrow> match_ws1 (ws @ r) = Some (dropWhile isspace r)"
  by (simp add: match_ws1_def takeWhile_space_run dropWhile_space_run)


lemma year_pattern_Some:
  assumes "year_pattern t = Some (digits, r)"
  shows "\<exists>ws1 ws2. t = ''.'' @ ws1 @ digits @ ''.'' @ ws2 @ r \<and>
        ws1 \<noteq> [] \<and> list_all isspace ws1 \<and>
        length digits = 4 \<and> list_all isdigit digits \<and>
        ws2 \<noteq> [] \<and> list_all isspace ws2 \<and> (r = [] \<or> \<not> isspace (hd r))"
proof -
  from assms obtain r1 r2 r3 r4 where
    m1: "match_lit ''.'' t = Some r1" and m2: "match_ws1 r1 = Some r2" and
    m3: "match_digits4 r2 = Some (digits, r3)" and m4: "match_lit ''.'' r3 = Some r4" and
    m5: "match_ws1 r4 = Some r"
    by (auto simp: year_pattern_def split: option.splits)
  from m1 have t: "t = CHR ''.'' # r1" by (simp add: match_lit_dot)
  from m2 have r2: "r2 = dropWhile isspace r1" and w1: "takeWhile isspace r1 \<noteq> []"
    by (auto simp: match_ws1_def split: if_splits)
  from m3 have d: "digits = take 4 r2" "r3 = drop 4 r2" "length digits = 4" "list_all isdigit digits"
    by (auto simp: match_digits4_def split: if_splits)
  from m4 have r3: "r3 = CHR ''.'' # r4" by (simp add: match_lit_dot)
  from m5 have r: "r = dropWhile isspace r4" and w2: "takeWhile isspace r4 \<noteq> []"
    by (auto simp: match_ws1_def split: if_splits)
  have a: "r1 = takeWhile isspace r1 @ r2" using r2 by simp
  have b: "r2 = digits @ r3" using d by simp
  have c: "r4 = takeWhile isspace r4 @ r" using r by simp
  have "t = ''.'' @ takeWhile isspace r1 @ digits @ ''.'' @ takeWhile isspace r4 @ r"
    using t a b r3 c by (metis append_Cons append_Nil)
  moreover have "list_all isspace (takeWhile isspace r1)" "list_all isspace (takeWhile isspace r4)"
    by (auto simp: list_all_iff dest: set_takeWhileD)
  moreover have "r = [] \<or> \<not> isspace (hd r)"
    unfolding r by (metis dropWhile_eq_Nil_conv hd_dropWhile)
  ultimately show ?thesis using w1 w2 d by blast
qed



lemma py_index_first: "xs \<noteq> [] \<Longrightarrow> py_index xs 0 = Inr (hd xs)"
  by (cases xs) (simp_all add: py_index_def)

lemma py_index_last: "xs \<noteq> [] \<Longrightarrow> py_index xs (- 1) = Inr (last xs)"
proof -
  assume ne: "xs \<noteq> []"
  then have pos: "1 \<le> length xs" by (cases xs) simp_all
  then have "nat (int (length xs) + - 1) = length xs - 1" by simp
  with pos ne show ?thesis
    by (simp add: py_index_def last_conv_nth)
qed

lemma py_index_second: "2 \<le> length xs \<Longrightarrow> py_index xs 1 = Inr (xs ! 1)"
  by (simp add: py_index_def Let_def)

lemma py_int_digits:
  "s \<noteq> [] \<Longrightarrow> list_all isdigit s \<Longrightarrow> \<exists>y. py_int s = Inr y"
  by (simp add: py_int_def)

lemma re_split_authors_hd:
  "re_split_authors a \<noteq> [] \<and>
   hd (re_split_authors a) =
     (case re_search author_sep_pattern 0 a of None \<Rightarrow> a | Some (st, en, g) \<Rightarrow> take st a)"
  by (subst (1 2) re_split_authors.simps) (simp split: option.splits)

text \<open>\<open>split()\<close> ignores the white space at both ends of its argument.\<close>

lemma split_acc_spaces:
  "list_all isspace s \<Longrightarrow> split_acc acc s = split_acc acc []"
  by (induction s arbitrary: acc) auto

lemma split_acc_lstrip: "split_acc [] (dropWhile isspace s) = split_acc [] s"
  by (induction s) auto

lemma py_rstrip_Cons:
  "py_rstrip (c # s) = (if isspace c \<and> py_rstrip s = [] then [] else c # py_rstrip s)"
  by (auto simp: py_rstrip_def dropWhile_append3 dropWhile_append)

lemma py_rstrip_Nil_iff: "py_rstrip s = [] \<longleftrightarrow> list_all isspace s"
  by (auto simp: py_rstrip_def dropWhile_eq_Nil_conv list_all_iff)

lemma split_acc_rstrip: "split_acc acc (py_rstrip s) = split_acc acc s"
proof (induction s arbitrary: acc)
  case Nil
  then show ?case by (simp add: py_rstrip_def)
next
  case (Cons c s)
  show ?case
  proof (cases "isspace c \<and> py_rstrip s = []")
    case True
    then have "list_all isspace (c # s)" by (simp add: py_rstrip_Nil_iff)
    from split_acc_spaces[OF this] True show ?thesis by (simp add: py_rstrip_Cons)
  next
    case False
    then show ?thesis using Cons.IH by (auto simp add: py_rstrip_Cons)
  qed
qed

lemma py_split_strip: "py_split (py_strip s) = py_split s"
  by (simp add: py_split_def py_strip_def py_lstrip_def split_acc_rstrip split_acc_lstrip)

lemma match_lit_Some_iff: "match_lit l s = Some r \<longleftrightarrow> s = l @ r"
  by (auto simp: match_lit_def) (metis append_take_drop_id)

lemma and_pattern_Some:
  assumes "and_pattern t = Some (g, r)"
  shows "\<exists>ws1 ws2. t = ws1 @ ''and'' @ ws2 @ r \<and> ws1 \<noteq> [] \<and> list_all isspace ws1 \<and>
                   ws2 \<noteq> [] \<and> list_all isspace ws2"
proof -
  from assms obtain r1 r2 where
    m1: "match_ws1 t = Some r1" and m2: "match_lit ''and'' r1 = Some r2" and
    m3: "match_ws1 r2 = Some r"
    by (auto simp: and_pattern_def split: option.splits)
  from m1 have r1: "r1 = dropWhile isspace t" and w1: "takeWhile isspace t \<noteq> []"
    by (auto simp: match_ws1_def split: if_splits)
  from m2 have r1': "r1 = ''and'' @ r2" by (simp only: match_lit_Some_iff)
  from m3 have r: "r = dropWhile isspace r2" and w2: "takeWhile isspace r2 \<noteq> []"
    by (auto simp: match_ws1_def split: if_splits)
  have "t = takeWhile isspace t @ r1" using r1 by simp
  also have "r1 = ''and'' @ takeWhile isspace r2 @ r" using r1' r by simp
  finally have "t = takeWhile isspace t @ ''and'' @ takeWhile isspace r2 @ r" .
  moreover have "list_all isspace (takeWhile isspace t)" "list_all isspace (takeWhile isspace r2)"
    by (auto simp: list_all_iff dest: set_takeWhileD)
  ultimately show ?thesis using w1 w2 by blast
qed

lemma and_pattern_decomp:
  assumes "ws1 \<noteq> []" "list_all isspace ws1" "ws2 \<noteq> []" "list_all isspace ws2"
  shows "and_pattern (ws1 @ ''and'' @ ws2 @ rest) = Some ((), dropWhile isspace rest)"
proof -
  have na: "\<not> isspace CHR ''a''" by (simp add: isspace_def)
  have 1: "match_ws1 (ws1 @ ''and'' @ ws2 @ rest) = Some (''and'' @ ws2 @ rest)"
    using match_ws1_run[OF assms(1,2), of "''and'' @ ws2 @ rest"] na by simp
  have 2: "match_lit ''and'' (''and'' @ ws2 @ rest) = Some (ws2 @ rest)"
    by (simp only: match_lit_Some_iff)
  have 3: "match_ws1 (ws2 @ rest) = Some (dropWhile isspace rest)"
    using match_ws1_run[OF assms(3,4)] .
  show ?thesis unfolding and_pattern_def by (simp only: 1 2 3 option.case)
qed

lemma author_sep_pattern_iff:
  "author_sep_pattern t \<noteq> None \<longleftrightarrow> (\<exists>sep rest. t = sep @ rest \<and> is_separator sep)"
proof
  assume "author_sep_pattern t \<noteq> None"
  then consider r where "match_lit '','' t = Some r" | g r where "and_pattern t = Some (g, r)"
    by (auto simp: author_sep_pattern_def split: option.splits)
  then show "\<exists>sep rest. t = sep @ rest \<and> is_separator sep"
  proof cases
    case 1
    then have "t = '','' @ r" by (simp only: match_lit_Some_iff)
    moreover have "is_separator '',''" by (simp add: is_separator_def)
    ultimately show ?thesis by blast
  next
    case 2
    from and_pattern_Some[OF this] obtain ws1 ws2 where
      t: "t = ws1 @ ''and'' @ ws2 @ r" and
      h: "ws1 \<noteq> []" "list_all isspace ws1" "ws2 \<noteq> []" "list_all isspace ws2" by blast
    from h have "is_separator (ws1 @ ''and'' @ ws2)" unfolding is_separator_def by blast
    moreover from t have "t = (ws1 @ ''and'' @ ws2) @ r" by simp
    ultimately show ?thesis by blast
  qed
next
  assume "\<exists>sep rest. t = sep @ rest \<and> is_separator sep"
  then obtain sep rest where t: "t = sep @ rest" and s: "is_separator sep" by blast
  from s consider "sep = '',''" |
    ws1 ws2 where "sep = ws1 @ ''and'' @ ws2" "ws1 \<noteq> []" "list_all isspace ws1"
      "ws2 \<noteq> []" "list_all isspace ws2"
    unfolding is_separator_def by blast
  then show "author_sep_pattern t \<noteq> None"
  proof cases
    case 1
    with t show ?thesis by (simp add: author_sep_pattern_def match_lit_def)
  next
    case 2
    from and_pattern_decomp[OF 2(2-5), of rest] 2(1) t
    have "and_pattern t \<noteq> None" by simp
    then show ?thesis by (auto simp: author_sep_pattern_def split: option.splits)
  qed
qed

lemma re_search_start_least:
  assumes "re_search p 0 s = Some (st, en, g)"
  shows "st = (LEAST k. p (drop k s) \<noteq> None)"
proof -
  from re_search_end[OF assms] have "p (drop st s) \<noteq> None" by auto
  moreover have "\<And>j. p (drop j s) \<noteq> None \<Longrightarrow> st \<le> j"
    using re_search_first[OF assms] by (metis add.right_neutral not_le_imp_less)
  ultimately show ?thesis by (metis (mono_tags, lifting) Least_equality)
qed

lemma separator_at_pattern: "separator_at a k \<longleftrightarrow> author_sep_pattern (drop k a) \<noteq> None"
  unfolding separator_at_def by (rule author_sep_pattern_iff[symmetric])

lemma author_sep_pattern_Nil: "author_sep_pattern [] = None"
  by (simp add: author_sep_pattern_def and_pattern_def match_lit_def match_ws1_def)

lemma split_head_segment: "hd (re_split_authors a) = first_author_segment a"
proof (cases "re_search author_sep_pattern 0 a")
  case None
  then have "\<And>k. author_sep_pattern (drop k a) = None"
    by (metis author_sep_pattern_Nil drop_all nat_le_linear re_search_exists)
  then have "\<not> (\<exists>k. separator_at a k)" by (simp add: separator_at_pattern)
  with None show ?thesis using re_split_authors_hd[of a] by (simp add: first_author_segment_def)
next
  case (Some m)
  then obtain st en g where m: "re_search author_sep_pattern 0 a = Some (st, en, g)"
    by (cases m) auto
  from re_search_start_least[OF m] have st: "st = (LEAST k. separator_at a k)"
    by (simp add: separator_at_pattern)
  from re_search_end[OF m] have "separator_at a st" by (auto simp: separator_at_pattern)
  then have "\<exists>k. separator_at a k" by blast
  with m st show ?thesis using re_split_authors_hd[of a] by (simp add: first_author_segment_def)
qed

lemma rstrip_chars_Cons:
  "rstrip_chars chars (c # s) =
     (if c \<in> set chars \<and> rstrip_chars chars s = [] then [] else c # rstrip_chars chars s)"
  by (auto simp: rstrip_chars_def dropWhile_append3 dropWhile_append)

lemma rstrip_punct: "rstrip_chars ''.,'' w = without_trailing_punct w"
  by (induction w) (auto simp: rstrip_chars_Cons, simp add: rstrip_chars_def)

lemma split_acc_Nil_iff: "split_acc acc s = [] \<longleftrightarrow> acc = [] \<and> list_all isspace s"
  by (induction s arbitrary: acc) auto

lemma last_token_skip:
  assumes "isspace c" "\<not> list_all isspace y"
  shows "last_token (x @ c # y) = last_token y"
proof -
  from assms(2) obtain d where d: "d \<in> set (rev y)" "\<not> isspace d" by (auto simp: list_all_iff)
  define D where "D = dropWhile isspace (rev y)"
  have "dropWhile isspace (rev (x @ c # y)) = D @ c # rev x"
    unfolding D_def using dropWhile_append1[of d "rev y" isspace "c # rev x"] d by simp
  moreover have "takeWhile (\<lambda>c. \<not> isspace c) (D @ c # rev x) = takeWhile (\<lambda>c. \<not> isspace c) D"
  proof (cases "\<forall>d\<in>set D. \<not> isspace d")
    case True
    then have tw: "takeWhile (\<lambda>c. \<not> isspace c) D = D" by (simp add: takeWhile_eq_all_conv)
    show ?thesis by (simp add: takeWhile_append True assms(1) tw)
  next
    case False
    then show ?thesis by (auto simp: takeWhile_append)
  qed
  ultimately show ?thesis unfolding last_token_def D_def by simp
qed

lemma last_token_trailing_spaces:
  assumes "list_all isspace y"
  shows "last_token (x @ y) = last_token x"
proof -
  have "dropWhile isspace (rev y @ rev x) = dropWhile isspace (rev x)"
    using assms by (intro dropWhile_append2) (simp add: list_all_iff)
  then show ?thesis unfolding last_token_def by simp
qed

lemma last_token_word:
  assumes "list_all (\<lambda>c. \<not> isspace c) w"
  shows "last_token w = w"
proof -
  have a: "\<forall>c\<in>set (rev w). \<not> isspace c" using assms by (simp add: list_all_iff)
  then have "dropWhile isspace (rev w) = rev w" by (cases "rev w") auto
  moreover from a have "takeWhile (\<lambda>c. \<not> isspace c) (rev w) = rev w"
    by (simp add: takeWhile_eq_all_conv)
  ultimately show ?thesis unfolding last_token_def by (simp only: rev_rev_ident)
qed

lemma last_split_acc:
  "list_all (\<lambda>c. \<not> isspace c) acc \<Longrightarrow> split_acc acc s \<noteq> [] \<Longrightarrow>
     last (split_acc acc s) = last_token (rev acc @ s)"
proof (induction s arbitrary: acc)
  case Nil
  then have "acc \<noteq> []" by (auto split: if_splits)
  moreover from Nil.prems(1) have "last_token (rev acc) = rev acc"
    by (intro last_token_word) (simp add: list_all_iff)
  ultimately show ?case by simp
next
  case (Cons c cs)
  show ?case
  proof (cases "isspace c")
    case False
    with Cons.prems have 1: "list_all (\<lambda>c. \<not> isspace c) (c # acc)" "split_acc (c # acc) cs \<noteq> []"
      by simp_all
    from Cons.IH[OF 1] False show ?thesis by simp
  next
    case True
    show ?thesis
    proof (cases "split_acc [] cs = []")
      case empty: True
      then have sp: "list_all isspace (c # cs)" using True by (simp add: split_acc_Nil_iff)
      from Cons.prems(2) True empty have ne: "acc \<noteq> []" by (auto split: if_splits)
      from Cons.prems(1) have "last_token (rev acc) = rev acc"
        by (intro last_token_word) (simp add: list_all_iff)
      with last_token_trailing_spaces[OF sp, of "rev acc"] True empty ne show ?thesis by simp
    next
      case False
      then have ns: "\<not> list_all isspace cs" by (simp add: split_acc_Nil_iff)
      have "last (split_acc [] cs) = last_token cs" using Cons.IH[of "[]"] False by simp
      moreover have "last_token (rev acc @ c # cs) = last_token cs"
        by (rule last_token_skip[OF True ns])
      ultimately show ?thesis using True False by simp
    qed
  qed
qed

lemma py_split_Nil_iff: "py_split seg = [] \<longleftrightarrow> list_all isspace seg"
  by (simp add: py_split_def split_acc_Nil_iff)

lemma last_py_split: "py_split seg \<noteq> [] \<Longrightarrow> last (py_split seg) = last_token seg"
  unfolding py_split_def using last_split_acc[of "[]" seg] by simp

lemma first_author_last_spec:
  "first_author_last a = Inr (last_name_of (first_author_segment a))"
proof -
  have 0: "py_index (re_split_authors a) 0 = Inr (first_author_segment a)"
    using re_split_authors_hd[of a] py_index_first[of "re_split_authors a"]
    by (simp add: split_head_segment)
  define ts where "ts = py_split (first_author_segment a)"
  have ts: "py_split (py_strip (first_author_segment a)) = ts"
    by (simp add: ts_def py_split_strip)
  show ?thesis
  proof (cases "ts = []")
    case True
    then have "list_all isspace (first_author_segment a)"
      unfolding ts_def by (simp add: py_split_Nil_iff)
    with True show ?thesis unfolding first_author_last_def last_name_of_def
      by (simp add: 0 ts)
  next
    case ne: False
    then have ns: "\<not> list_all isspace (first_author_segment a)"
      unfolding ts_def by (simp add: py_split_Nil_iff)
    from ne have lt: "last ts = last_token (first_author_segment a)"
      unfolding ts_def by (rule last_py_split)
    show ?thesis
    proof (cases "2 \<le> length ts")
      case True
      then show ?thesis unfolding first_author_last_def last_name_of_def
        using py_index_last[OF ne] ns lt by (simp add: 0 ts rstrip_punct)
    next
      case False
      with ne obtain w where "ts = [w]"
        by (cases ts; cases "tl ts") simp_all
      then have "hd ts = last ts" by simp
      with False show ?thesis unfolding first_author_last_def last_name_of_def
        using py_index_first[OF ne] ne ns lt by (simp add: 0 ts rstrip_punct)
    qed
  qed
qed

lemma clean_title_id: "clean_title t = t"
proof (cases "t = [] \<or> endswith t ''.''")
  case True
  then show ?thesis by (auto simp: clean_title_def)
next
  case False
  then have ne: "t \<noteq> []" and "\<not> endswith t ''.''" by auto
  then have "last t \<noteq> CHR ''.''"
    by (cases t rule: rev_cases) (auto simp: endswith_def)
  with ne have "rstrip_chars ''.'' t = t"
    by (cases t rule: rev_cases) (auto simp: rstrip_chars_def)
  then show ?thesis by (simp add: clean_title_def)
qed

lemma title_venue_total: "\<exists>t v. title_venue s = Inr (t, v)"
  by (auto simp: title_venue_def re_split_once_def py_index_def Let_def split: option.splits)

lemma year_search_Nil: "re_search year_pattern 0 [] = None"
  by (simp add: year_pattern_def match_lit_def)

lemma year_group_int:
  assumes "re_search year_pattern 0 s = Some (st, en, g)"
  shows "length g = 4 \<and> list_all isdigit g \<and> (\<exists>y. py_int g = Inr y)"
proof -
  from re_search_end[OF assms] obtain k rest where "year_pattern (drop k s) = Some (g, rest)"
    by blast
  from year_pattern_Some[OF this] have g: "length g = 4" "list_all isdigit g" by blast+
  then have "g \<noteq> []" by auto
  with g py_int_digits show ?thesis by blast
qed

lemma py_print_utf8: "py_print utf8_stdout line = Inr [line]"
  by (simp add: py_print_def utf8_stdout_def list_all_iff)

lemma parse_reference_on_found:
  assumes "re_search year_pattern 0 (py_strip raw) = Some (st, en, g)"
  shows "\<exists>y t v. py_int g = Inr y \<and>
           title_venue (py_strip (drop en (py_strip raw))) = Inr (t, v) \<and>
           parse_reference_on encodes raw =
             ([], Inr (Some (last_name_of (first_author_segment (py_strip (take st (py_strip raw)))),
                             y, py_strip (take st (py_strip raw)), t, v)))"
proof -
  from assms have ne: "py_strip raw \<noteq> []" using year_search_Nil by auto
  from year_group_int[OF assms] obtain y where y: "py_int g = Inr y" by blast
  from title_venue_total obtain t v where
    tv: "title_venue (py_strip (drop en (py_strip raw))) = Inr (t, v)" by blast
  have "parse_reference_on encodes raw =
        ([], Inr (Some (last_name_of (first_author_segment (py_strip (take st (py_strip raw)))),
                        y, py_strip (take st (py_strip raw)), t, v)))"
    unfolding parse_reference_on_def Let_def
    by (simp add: ne assms y tv first_author_last_spec clean_title_id)
  with y tv show ?thesis by blast
qed

lemma parse_reference_on_no_year:
  assumes "py_strip raw \<noteq> []" "re_search year_pattern 0 (py_strip raw) = None"
  shows "parse_reference_on encodes raw =
           (if list_all encodes (warning_line (py_strip raw))
            then ([warning_line (py_strip raw)], Inr None)
            else ([], Inl UnicodeEncodeError))"
  unfolding parse_reference_on_def Let_def using assms by (simp add: py_print_def)

lemma parse_reference_on_empty:
  assumes "py_strip raw = []"
  shows "parse_reference_on encodes raw = ([], Inr None)"
  unfolding parse_reference_on_def Let_def using assms by simp

lemma parse_reference_found:
  assumes "re_search year_pattern 0 (py_strip raw) = Some (st, en, g)"
  shows "\<exists>y t v. py_int g = Inr y \<and>
           title_venue (py_strip (drop en (py_strip raw))) = Inr (t, v) \<and>
           parse_reference raw =
             ([], Inr (Some (last_name_of (first_author_segment (py_strip (take st (py_strip raw)))),
                             y, py_strip (take st (py_strip raw)), t, v)))"
  unfolding parse_reference_def by (rule parse_reference_on_found[OF assms])

lemma parse_reference_no_year:
  assumes "py_strip raw \<noteq> []" "re_search year_pattern 0 (py_strip raw) = None"
  shows "parse_reference raw = ([warning_line (py_strip raw)], Inr None)"
  unfolding parse_reference_def parse_reference_on_no_year[OF assms]
  by (simp add: utf8_stdout_def list_all_iff)

lemma parse_reference_empty:
  assumes "py_strip raw = []"
  shows "parse_reference raw = ([], Inr None)"
  unfolding parse_reference_def by (rule parse_reference_on_empty[OF assms])


lemma py_strip_Nil_iff: "py_strip s = [] \<longleftrightarrow> list_all isspace s"
proof -
  have "py_strip s = [] \<longleftrightarrow> list_all isspace (dropWhile isspace s)"
    by (simp add: py_strip_def py_lstrip_def py_rstrip_Nil_iff)
  also have "\<dots> \<longleftrightarrow> list_all isspace s"
    by (induction s) auto
  finally show ?thesis .
qed














lemma ref_key_order:
  "ref_key x \<le> ref_key y \<longleftrightarrow>
     py_lower (fst x) < py_lower (fst y) \<or>
     (py_lower (fst x) = py_lower (fst y) \<and> fst (snd x) \<le> fst (snd y))"
  by (auto simp: ref_key_def less_eq_prod_def)

section \<open>The claims\<close>

text \<open>
  Claim C1 says that one trailing period is stripped from the title, so that the title
  of a returned reference never ends with a period and \<open>Title..\<close> becomes
  \<open>Title.\<close>. The clean-up of lines 72 and 73 calls \<open>rstrip('.')\<close> only on a title
  that does not end with a period, where it changes nothing (\<open>clean_title_id\<close>). On
  the block below the title found is \<open>Title..\<close> and it is returned with both periods.
\<close>

theorem title_keeps_trailing_periods:
  "parse_reference ''A B. 2020. Title..'' = ([], Inr (Some (''B'', 2020, ''A B'', ''Title..'', [])))"
  by code_simp

text \<open>
  Claim C2 is scenario 1: last name \<open>Doe\<close>, year 2020, title \<open>A Study of Things\<close> and
  a venue that keeps the period before \<open>In\<close>. The slice of line 59 starts one
  character after the start of the match, that is after the period, and the white space
  that follows is trimmed: the venue returned is \<open>In Proceedings of Foo.\<close>, without
  the period that the comment on that line announces.
\<close>

theorem scenario1_venue_without_period:
  "parse_reference ''Jane Doe and John Smith. 2020. A Study of Things. In Proceedings of Foo.'' =
     ([], Inr (Some (''Doe'', 2020, ''Jane Doe and John Smith'', ''A Study of Things'',
                     ''In Proceedings of Foo.'')))"
  by code_simp





text \<open>
  Claim C5: the last name returned for a parsed block is the last white-space token,
  without its trailing periods and commas, of the part of the author text before the
  first comma or the first word \<open>and\<close> (\<open>Unknown\<close> when there is no token); the
  block of scenario 2 gives \<open>Lastname\<close>. A first author \<open>J. Smith Jr.\<close> gives \<open>Jr\<close>,
  and a block without authors gives \<open>Unknown\<close>.
\<close>

theorem first_author_last_name:
  "(snd (parse_reference block) = Inr (Some (ln, y, a, t, v)) \<longrightarrow>
      ln = last_name_of (first_author_segment a)) \<and>
   (\<exists>y a t v. snd (parse_reference ''A. B. Lastname. 1999. Some Title.'') =
      Inr (Some (''Lastname'', y, a, t, v))) \<and>
   (\<exists>y a t v. snd (parse_reference ''J. Smith Jr., A. Doe. 2020. T'') =
      Inr (Some (''Jr'', y, a, t, v))) \<and>
   (\<exists>y a t v. snd (parse_reference ''. 2020. T'') = Inr (Some (''Unknown'', y, a, t, v)))"
proof (intro conjI)
  show "snd (parse_reference block) = Inr (Some (ln, y, a, t, v)) \<longrightarrow>
          ln = last_name_of (first_author_segment a)"
  proof
    assume r: "snd (parse_reference block) = Inr (Some (ln, y, a, t, v))"
    show "ln = last_name_of (first_author_segment a)"
    proof (cases "re_search year_pattern 0 (py_strip block)")
      case None
      have "snd (parse_reference block) = Inr None"
        using None parse_reference_empty[of block] parse_reference_no_year[of block]
        by (cases "py_strip block = []") simp_all
      with r show ?thesis by simp
    next
      case (Some m)
      then obtain st en g where "re_search year_pattern 0 (py_strip block) = Some (st, en, g)"
        by (cases m) auto
      from parse_reference_found[OF this] r show ?thesis by auto
    qed
  qed
next
  have "snd (parse_reference ''A. B. Lastname. 1999. Some Title.'') =
          Inr (Some (''Lastname'', 1999, ''A. B. Lastname'', ''Some Title.'', []))"
    by code_simp
  then show "\<exists>y a t v. snd (parse_reference ''A. B. Lastname. 1999. Some Title.'') =
      Inr (Some (''Lastname'', y, a, t, v))" by blast
next
  have "snd (parse_reference ''J. Smith Jr., A. Doe. 2020. T'') =
          Inr (Some (''Jr'', 2020, ''J. Smith Jr., A. Doe'', ''T'', []))"
    by code_simp
  then show "\<exists>y a t v. snd (parse_reference ''J. Smith Jr., A. Doe. 2020. T'') =
      Inr (Some (''Jr'', y, a, t, v))" by blast
next
  have "snd (parse_reference ''. 2020. T'') = Inr (Some (''Unknown'', 2020, [], ''T'', []))"
    by code_simp
  then show "\<exists>y a t v. snd (parse_reference ''. 2020. T'') =
      Inr (Some (''Unknown'', y, a, t, v))" by blast
qed

theorem first_author_last_name_witness:
  "snd (parse_reference ''J. Smith Jr., A. Doe. 2020. T'') =
     Inr (Some (''Jr'', 2020, ''J. Smith Jr., A. Doe'', ''T'', [])) \<and>
   ''Jr'' = last_name_of (first_author_segment ''J. Smith Jr., A. Doe'') \<and>
   last_token ''J. Smith Jr.'' = ''Jr.'' \<and>
   without_trailing_punct ''Jr.'' = ''Jr'' \<and>
   last_name_of ''J. Smith Jr.'' = ''Jr'' \<and>
   last_name_of ''Jane Doe'' = ''Doe'' \<and>
   last_name_of ''  '' = ''Unknown''"
proof -
  have h: "snd (parse_reference ''J. Smith Jr., A. Doe. 2020. T'') =
     Inr (Some (''Jr'', 2020, ''J. Smith Jr., A. Doe'', ''T'', []))"
    by code_simp
  have e: "last_token ''J. Smith Jr.'' = ''Jr.''" "without_trailing_punct ''Jr.'' = ''Jr''"
    "last_name_of ''J. Smith Jr.'' = ''Jr''" "last_name_of ''Jane Doe'' = ''Doe''"
    "last_name_of ''  '' = ''Unknown''"
    by code_simp+
  from first_author_last_name[of "''J. Smith Jr., A. Doe. 2020. T''"
      "''Jr''" 2020 "''J. Smith Jr., A. Doe''" "''T''" "[]"] h e
  show ?thesis by blast
qed

text \<open>
  Claim C6: the sort of line 93 returns the same entries in ascending order of the key
  (lower-cased last name, then year), and entries with equal keys keep their input
  order. Lower-casing maps the capital letters to the small ones; scenario 3 puts
  Adams (2019) before Smith (2021); \<open>adams\<close> and \<open>Adams\<close> of the same year are equal
  keys and stay in input order, before \<open>Baker\<close>.
\<close>

theorem sort_ascending_stable:
  "sorted_wrt (\<lambda>x y. py_lower (fst x) < py_lower (fst y) \<or>
                      (py_lower (fst x) = py_lower (fst y) \<and> fst (snd x) \<le> fst (snd y)))
     (sort_refs entries) \<and>
   mset (sort_refs entries) = mset entries \<and>
   (\<forall>name year.
      filter (\<lambda>x. py_lower (fst x) = name \<and> fst (snd x) = year) (sort_refs entries) =
      filter (\<lambda>x. py_lower (fst x) = name \<and> fst (snd x) = year) entries) \<and>
   py_lower ''ABCDEFGHIJKLMNOPQRSTUVWXYZ'' = ''abcdefghijklmnopqrstuvwxyz'' \<and>
   sort_refs [(''Smith'', 2021, ''J. Smith'', ''S'', []), (''Adams'', 2019, ''K. Adams'', ''A'', [])] =
     [(''Adams'', 2019, ''K. Adams'', ''A'', []), (''Smith'', 2021, ''J. Smith'', ''S'', [])] \<and>
   sort_refs [(''adams'', 2019, ''first'', ''t'', []), (''Smith'', 2021, ''s'', ''t'', []),
              (''Baker'', 2000, ''b'', ''t'', []), (''Adams'', 2019, ''second'', ''t'', []),
              (''ADAMS'', 2001, ''early'', ''t'', [])] =
     [(''ADAMS'', 2001, ''early'', ''t'', []), (''adams'', 2019, ''first'', ''t'', []),
      (''Adams'', 2019, ''second'', ''t'', []), (''Baker'', 2000, ''b'', ''t'', []),
      (''Smith'', 2021, ''s'', ''t'', [])]"
proof (intro conjI)
  have "sorted (map ref_key (sort_refs entries))" by (simp add: sort_refs_def)
  then have "sorted_wrt (\<lambda>x y. ref_key x \<le> ref_key y) (sort_refs entries)"
    by (simp only: sorted_map)
  then show "sorted_wrt (\<lambda>x y. py_lower (fst x) < py_lower (fst y) \<or>
                      (py_lower (fst x) = py_lower (fst y) \<and> fst (snd x) \<le> fst (snd y)))
     (sort_refs entries)"
    by (simp only: ref_key_order)
next
  show "mset (sort_refs entries) = mset entries" by (simp add: sort_refs_def)
next
  show "\<forall>name year.
      filter (\<lambda>x. py_lower (fst x) = name \<and> fst (snd x) = year) (sort_refs entries) =
      filter (\<lambda>x. py_lower (fst x) = name \<and> fst (snd x) = year) entries"
  proof (intro allI)
    fix name year
    have "(\<lambda>x. py_lower (fst x) = name \<and> fst (snd x) = year) = (\<lambda>x. ref_key x = (name, year))"
      by (auto simp: ref_key_def)
    then show "filter (\<lambda>x. py_lower (fst x) = name \<and> fst (snd x) = year) (sort_refs entries) =
      filter (\<lambda>x. py_lower (fst x) = name \<and> fst (snd x) = year) entries"
      by (simp only: sort_refs_def sort_key_stable)
  qed
next
  show "py_lower ''ABCDEFGHIJKLMNOPQRSTUVWXYZ'' = ''abcdefghijklmnopqrstuvwxyz''"
    by code_simp
next
  show "sort_refs [(''Smith'', 2021, ''J. Smith'', ''S'', []), (''Adams'', 2019, ''K. Adams'', ''A'', [])] =
     [(''Adams'', 2019, ''K. Adams'', ''A'', []), (''Smith'', 2021, ''J. Smith'', ''S'', [])]"
    by code_simp
next
  show "sort_refs [(''adams'', 2019, ''first'', ''t'', []), (''Smith'', 2021, ''s'', ''t'', []),
              (''Baker'', 2000, ''b'', ''t'', []), (''Adams'', 2019, ''second'', ''t'', []),
              (''ADAMS'', 2001, ''early'', ''t'', [])] =
     [(''ADAMS'', 2001, ''early'', ''t'', []), (''adams'', 2019, ''first'', ''t'', []),
      (''Adams'', 2019, ''second'', ''t'', []), (''Baker'', 2000, ''b'', ''t'', []),
      (''Smith'', 2021, ''s'', ''t'', [])]"
    by code_simp
qed



text \<open>
  Claim C8: a block that is empty or all white space gives no record and prints
  nothing; the loop passes over it.
\<close>

theorem blank_block_silent:
  assumes "list_all isspace block"
  shows "parse_reference block = ([], Inr None) \<and>
         parse_loop (block # rest) parsed out = parse_loop rest parsed out"
proof -
  from assms have "py_strip block = []" by (simp add: py_strip_Nil_iff)
  then have "parse_reference block = ([], Inr None)" by (rule parse_reference_empty)
  then show ?thesis by simp
qed

theorem blank_block_silent_witness:
  "list_all isspace [CHR '' '', CHR 0x0A, CHR 0x09] \<and>
   parse_reference [CHR '' '', CHR 0x0A, CHR 0x09] = ([], Inr None) \<and>
   parse_loop [[CHR '' '', CHR 0x0A, CHR 0x09]] [] [] = ([], Inr [])"
proof -
  have h: "list_all isspace [CHR '' '', CHR 0x0A, CHR 0x09]" by (simp add: isspace_def)
  from blank_block_silent[OF h, of "[]" "[]" "[]"] h show ?thesis by simp
qed




text \<open>
  Claim C10: an author text without a comma in which every \<open>and\<close> is part of a longer
  word is not split: \<open>re.split\<close> returns it whole, and so does the index \<open>[0]\<close>.
\<close>

theorem and_inside_word_no_split:
  assumes "CHR '','' \<notin> set a" and "and_only_inside_words a"
  shows "re_split_authors a = [a] \<and> py_index (re_split_authors a) 0 = Inr a"
proof -
  have none: "re_search author_sep_pattern 0 a = None"
  proof (rule ccontr)
    assume "re_search author_sep_pattern 0 a \<noteq> None"
    from re_search_SomeD[OF this] obtain k where "author_sep_pattern (drop k a) \<noteq> None" by blast
    then obtain sep rest where d: "drop k a = sep @ rest" and s: "is_separator sep"
      unfolding author_sep_pattern_iff by blast
    from s consider "sep = '',''" |
      ws1 ws2 where "sep = ws1 @ ''and'' @ ws2" "ws1 \<noteq> []" "list_all isspace ws1"
        "ws2 \<noteq> []" "list_all isspace ws2"
      unfolding is_separator_def by blast
    then show False
    proof cases
      case 1
      with d have "CHR '','' \<in> set (drop k a)" by simp
      then have "CHR '','' \<in> set a" by (rule in_set_dropD)
      with assms(1) show False by simp
    next
      case 2
      define P where "P = take k a @ ws1"
      have a: "a = P @ ''and'' @ ws2 @ rest"
        using d 2(1) unfolding P_def by (metis append.assoc append_take_drop_id)
      have Pne: "P \<noteq> []" using 2(2) by (simp add: P_def)
      have lastP: "isspace (last P)" using 2(2,3) by (simp add: P_def list_all_iff)
      have len: "length a = length P + 3 + length ws2 + length rest" by (subst a) simp
      from 2(4) have "0 < length ws2" by simp
      with len have lt: "length P < length a" "length P + 3 < length a" by simp_all
      have occ: "take 3 (drop (length P) a) = ''and''" by (subst a) simp
      have before: "a ! (length P - 1) = last P"
        by (subst a) (simp add: nth_append Pne last_conv_nth)
      have "a ! (length P + 3) = (''and'' @ ws2 @ rest) ! 3"
        by (subst a) (simp only: nth_append_length_plus)
      also have "\<dots> = hd ws2" using 2(4) by (cases ws2) simp_all
      finally have after: "isspace (a ! (length P + 3))"
        using 2(4,5) by (cases ws2) simp_all
      from assms(2) lt(1) occ have "and_inside_word_at a (length P)"
        by (simp add: and_only_inside_words_def list_all_iff)
      with before lastP after show False by (simp add: and_inside_word_at_def)
    qed
  qed
  then have "re_split_authors a = [a]" by (subst re_split_authors.simps) simp
  then show ?thesis by (simp add: py_index_def)
qed

theorem and_inside_word_no_split_witness:
  "CHR '','' \<notin> set ''Alexander Anderson'' \<and> and_only_inside_words ''Alexander Anderson'' \<and>
   re_split_authors ''Alexander Anderson'' = [''Alexander Anderson''] \<and>
   py_index (re_split_authors ''Alexander Anderson'') 0 = Inr ''Alexander Anderson''"
proof -
  have h1: "CHR '','' \<notin> set ''Alexander Anderson''" by simp
  have h2: "and_only_inside_words ''Alexander Anderson''" by code_simp
  from and_inside_word_no_split[OF h1 h2] h1 h2 show ?thesis by blast
qed

end
